theory Spec2Isabelle
  imports Complex_Main
begin

section \<open>Contiguous-region selection (gimpimage-contiguous-region.c)\<close>

text \<open>
  The similarity evaluator \<open>pixel_difference\<close>, the segment finder
  \<open>find_contiguous_segment\<close>, the work-list driver
  \<open>find_contiguous_region_helper\<close> and the two public entry points are embedded
  as HOL functions. A \<open>gfloat\<close> is modelled as a real number: the comparisons,
  the subtraction, the division and the doubling of the source are the exact operations,
  without the rounding of a 32-bit float and without NaN. A \<open>gint\<close> is an
  \<open>int\<close>; the coordinates of the source stay far from the limits of a 32-bit
  integer, so no wrap-around is written out.
\<close>

subsection \<open>Colours and the select criterion\<close>

text \<open>A colour is the array of channel values that \<open>const gfloat *col\<close> points to.\<close>

type_synonym color = "real list"

text \<open>
  The members of the enumeration \<open>GimpSelectCriterion\<close>. The cases for hue,
  saturation and value are compiled out (\<open>#if 0\<close>), so the \<open>switch\<close> of
  \<open>pixel_difference\<close> leaves \<open>max\<close> at its initial value for them.
\<close>

datatype GimpSelectCriterion =
    GIMP_SELECT_CRITERION_COMPOSITE
  | GIMP_SELECT_CRITERION_R
  | GIMP_SELECT_CRITERION_G
  | GIMP_SELECT_CRITERION_B
  | GIMP_SELECT_CRITERION_H
  | GIMP_SELECT_CRITERION_S
  | GIMP_SELECT_CRITERION_V

subsection \<open>pixel_difference\<close>

text \<open>
  The loop of the composite case: \<open>for (b = 0; b < n_components; b++)\<close> keeps the
  largest absolute channel difference seen so far, starting from \<open>max = 0.0\<close>.
\<close>

definition composite_difference :: "color \<Rightarrow> color \<Rightarrow> int \<Rightarrow> real" where
  "composite_difference col1 col2 n_components =
     fold (\<lambda>b mx. let diff = \<bar>col1 ! b - col2 ! b\<bar> in if diff > mx then diff else mx)
          [0 ..< nat n_components] 0"

text \<open>
  The value of the local variable \<open>max\<close> when control reaches the threshold test:
  the alpha difference when transparency is being selected, otherwise the difference
  that the criterion asks for, over the colour channels only.
\<close>

definition max_difference ::
  "color \<Rightarrow> color \<Rightarrow> int \<Rightarrow> bool \<Rightarrow> bool \<Rightarrow> GimpSelectCriterion \<Rightarrow> real" where
  "max_difference col1 col2 n_components has_alpha select_transparent select_criterion =
     (if select_transparent \<and> has_alpha
      then \<bar>col1 ! nat (n_components - 1) - col2 ! nat (n_components - 1)\<bar>
      else
        (let n = (if has_alpha then n_components - 1 else n_components) in
         case select_criterion of
           GIMP_SELECT_CRITERION_COMPOSITE \<Rightarrow> composite_difference col1 col2 n
         | GIMP_SELECT_CRITERION_R \<Rightarrow> \<bar>col1 ! 0 - col2 ! 0\<bar>
         | GIMP_SELECT_CRITERION_G \<Rightarrow> \<bar>col1 ! 1 - col2 ! 1\<bar>
         | GIMP_SELECT_CRITERION_B \<Rightarrow> \<bar>col1 ! 2 - col2 ! 2\<bar>
         | _ \<Rightarrow> 0))"

text \<open>The last \<open>if\<close> of \<open>pixel_difference\<close>: the antialiasing ramp or the hard cutoff.\<close>

definition threshold_value :: "bool \<Rightarrow> real \<Rightarrow> real \<Rightarrow> real" where
  "threshold_value antialias threshold mx =
     (if antialias \<and> threshold > 0
      then (let aa = 1.5 - mx / threshold in
            if aa \<le> 0 then 0 else if aa < 0.5 then aa * 2 else 1)
      else (if mx > threshold then 0 else 1))"

definition pixel_difference ::
  "color \<Rightarrow> color \<Rightarrow> bool \<Rightarrow> real \<Rightarrow> int \<Rightarrow> bool \<Rightarrow> bool \<Rightarrow> GimpSelectCriterion \<Rightarrow> real" where
  "pixel_difference col1 col2 antialias threshold n_components has_alpha
                    select_transparent select_criterion =
     (if \<not> select_transparent \<and> has_alpha \<and> col2 ! nat (n_components - 1) = 0
      then 0
      else threshold_value antialias threshold
             (max_difference col1 col2 n_components has_alpha
                             select_transparent select_criterion))"

subsection \<open>Pixel formats, buffers and the mask (babl and GEGL)\<close>

text \<open>
  babl and GEGL are libraries outside this file; what the code uses of them is modelled
  here. A pixel format is known by its base type and by whether it has an alpha channel;
  the float formats that \<open>gimp_babl_format\<close> builds for an RGB or a grey base type have
  three or one colour components, plus alpha.
\<close>

datatype GimpImageBaseType = GIMP_RGB | GIMP_GRAY | GIMP_INDEXED

datatype Babl =
  Babl (gimp_babl_format_get_base_type: GimpImageBaseType) (babl_format_has_alpha: bool)

definition babl_format_is_palette :: "Babl \<Rightarrow> bool" where
  "babl_format_is_palette format = (gimp_babl_format_get_base_type format = GIMP_INDEXED)"

definition babl_format_get_n_components :: "Babl \<Rightarrow> int" where
  "babl_format_get_n_components format =
     (case gimp_babl_format_get_base_type format of GIMP_RGB \<Rightarrow> 3 | _ \<Rightarrow> 1)
     + (if babl_format_has_alpha format then 1 else 0)"

text \<open>\<open>gimp_babl_format (base_type, GIMP_PRECISION_FLOAT, with_alpha)\<close>.\<close>

definition gimp_babl_format :: "GimpImageBaseType \<Rightarrow> bool \<Rightarrow> Babl" where
  "gimp_babl_format base_type with_alpha = Babl base_type with_alpha"

text \<open>\<open>babl_format ("RGBA float")\<close>.\<close>

definition RGBA_float :: Babl where
  "RGBA_float = Babl GIMP_RGB True"

text \<open>
  A source buffer has an extent and, for each requested format, the pixel at a
  coordinate converted to that format. \<open>gegl_buffer_sample\<close> with
  \<open>GEGL_ABYSS_NONE\<close> yields zeros outside the extent.
\<close>

record GeglBuffer =
  gegl_buffer_get_width :: int
  gegl_buffer_get_height :: int
  gegl_buffer_pixel :: "Babl \<Rightarrow> int \<Rightarrow> int \<Rightarrow> color"

definition gegl_buffer_sample :: "GeglBuffer \<Rightarrow> int \<Rightarrow> int \<Rightarrow> Babl \<Rightarrow> color" where
  "gegl_buffer_sample buffer x y format =
     (if 0 \<le> x \<and> x < gegl_buffer_get_width buffer \<and> 0 \<le> y \<and> y < gegl_buffer_get_height buffer
      then gegl_buffer_pixel buffer format x y
      else replicate (nat (babl_format_get_n_components format)) 0)"

text \<open>
  The mask is a single-channel buffer (\<open>"Y float"\<close>). Besides the cell values the
  record keeps, for each cell, how many times \<open>gegl_buffer_set\<close> has stored into it;
  this counter is bookkeeping for the statements about writes and is never read by the
  algorithm.
\<close>

record mask_buffer =
  mask_width :: int
  mask_height :: int
  mask_cells :: "int \<times> int \<Rightarrow> real"
  mask_writes :: "int \<times> int \<Rightarrow> nat"

text \<open>\<open>gimp_channel_new_mask\<close>: a zero-initialised mask of the given size.\<close>

definition gimp_channel_new_mask :: "int \<Rightarrow> int \<Rightarrow> mask_buffer" where
  "gimp_channel_new_mask width height =
     \<lparr> mask_width = width, mask_height = height,
       mask_cells = (\<lambda>_. 0), mask_writes = (\<lambda>_. 0) \<rparr>"

definition gegl_buffer_sample_mask :: "mask_buffer \<Rightarrow> int \<Rightarrow> int \<Rightarrow> real" where
  "gegl_buffer_sample_mask buffer x y =
     (if 0 \<le> x \<and> x < mask_width buffer \<and> 0 \<le> y \<and> y < mask_height buffer
      then mask_cells buffer (x, y) else 0)"

text \<open>
  What can go wrong: \<open>g_return_val_if_fail\<close> returns \<open>NULL\<close>; an index into the
  local array \<open>mask_row[width]\<close> outside \<open>0 .. width - 1\<close> and a read of an entry
  of it that was never assigned are undefined behaviour in C and end the model's run.
\<close>

datatype fault = Returned_NULL | Row_index_out_of_bounds | Row_entry_unassigned

text \<open>
  \<open>gegl_buffer_set (buffer, GEGL_RECTANGLE (x, y, w, 1), 0, "Y float", src, ...)\<close>:
  the cell in column \<open>x + i\<close> of row \<open>y\<close> receives \<open>src[i]\<close>. GEGL clips the
  rectangle to the extent of the buffer, and only the entries of \<open>src\<close> for the cells
  that remain are read.
\<close>

definition rect_columns :: "mask_buffer \<Rightarrow> int \<Rightarrow> int \<Rightarrow> int \<Rightarrow> int list" where
  "rect_columns buffer x y w =
     (if 0 \<le> y \<and> y < mask_height buffer
      then [max x 0 .. min (x + w) (mask_width buffer) - 1] else [])"

definition gegl_buffer_set ::
  "mask_buffer \<Rightarrow> int \<Rightarrow> int \<Rightarrow> int \<Rightarrow> (int \<rightharpoonup> real) \<Rightarrow> fault + mask_buffer" where
  "gegl_buffer_set buffer x y w src =
     (let cols = rect_columns buffer x y w in
      if \<exists>c \<in> set cols. src (c - x) = None then Inl Row_entry_unassigned
      else Inr (buffer
        \<lparr> mask_cells := (\<lambda>(cx, cy). if cy = y \<and> cx \<in> set cols then the (src (cx - x))
                                    else mask_cells buffer (cx, cy)),
          mask_writes := (\<lambda>(cx, cy). if cy = y \<and> cx \<in> set cols
                                     then Suc (mask_writes buffer (cx, cy))
                                     else mask_writes buffer (cx, cy)) \<rparr>))"

subsection \<open>find_contiguous_segment\<close>

text \<open>
  Sampling the source at a column of row \<open>initial_y\<close> and comparing the sample with
  \<open>col\<close>: the pair of calls \<open>gegl_buffer_sample\<close>, \<open>pixel_difference\<close> that the
  function makes for the probe and in both loops.
\<close>

definition sample_difference ::
  "color \<Rightarrow> GeglBuffer \<Rightarrow> Babl \<Rightarrow> int \<Rightarrow> bool \<Rightarrow> bool \<Rightarrow> GimpSelectCriterion \<Rightarrow> bool \<Rightarrow> real
   \<Rightarrow> int \<Rightarrow> int \<Rightarrow> real" where
  "sample_difference col src_buffer src_format n_components has_alpha select_transparent
                     select_criterion antialias threshold x y =
     pixel_difference col (gegl_buffer_sample src_buffer x y src_format) antialias threshold
                      n_components has_alpha select_transparent select_criterion"

text \<open>
  \<open>while ( *start >= 0 && diff)\<close>: the state of the loop is the cursor, the last
  \<open>diff\<close> and the row of evaluated values.
\<close>

function find_segment_left ::
  "(int \<Rightarrow> real) \<Rightarrow> int \<Rightarrow> real \<Rightarrow> (int \<rightharpoonup> real) \<Rightarrow> int \<times> (int \<rightharpoonup> real)" where
  "find_segment_left ev start diff mask_row =
     (if start \<ge> 0 \<and> diff \<noteq> 0
      then (let diff' = ev start; mask_row' = mask_row(start \<mapsto> diff')
            in find_segment_left ev (if diff' \<noteq> 0 then start - 1 else start) diff' mask_row')
      else (start, mask_row))"
  by pat_completeness auto
termination
  by (relation "measure (\<lambda>(ev, start, diff, mask_row).
                   2 * nat (start + 1) + (if diff \<noteq> 0 then 1 else 0))") auto

declare find_segment_left.simps [simp del]

text \<open>\<open>while ( *end < width && diff)\<close>.\<close>

function find_segment_right ::
  "(int \<Rightarrow> real) \<Rightarrow> int \<Rightarrow> int \<Rightarrow> real \<Rightarrow> (int \<rightharpoonup> real) \<Rightarrow> int \<times> (int \<rightharpoonup> real)" where
  "find_segment_right ev width end diff mask_row =
     (if end < width \<and> diff \<noteq> 0
      then (let diff' = ev end; mask_row' = mask_row(end \<mapsto> diff')
            in find_segment_right ev width (if diff' \<noteq> 0 then end + 1 else end) diff' mask_row')
      else (end, mask_row))"
  by pat_completeness auto
termination
  by (relation "measure (\<lambda>(ev, width, end, diff, mask_row).
                   2 * nat (width - end) + (if diff \<noteq> 0 then 1 else 0))") auto

declare find_segment_right.simps [simp del]

text \<open>
  The result is \<open>None\<close> for \<open>FALSE\<close>, and for \<open>TRUE\<close> the mask after the bulk
  write together with \<open>*start\<close> and \<open>*end\<close>. The bulk write passes the rectangle
  \<open>( *start, initial_y, *end - *start, 1)\<close> and the pointer \<open>&mask_row[*start]\<close>.
\<close>

definition find_contiguous_segment ::
  "color \<Rightarrow> GeglBuffer \<Rightarrow> mask_buffer \<Rightarrow> Babl \<Rightarrow> int \<Rightarrow> bool \<Rightarrow> int \<Rightarrow> bool
   \<Rightarrow> GimpSelectCriterion \<Rightarrow> bool \<Rightarrow> real \<Rightarrow> int \<Rightarrow> int
   \<Rightarrow> fault + (mask_buffer \<times> int \<times> int) option" where
  "find_contiguous_segment col src_buffer mask_buffer src_format n_components has_alpha width
                           select_transparent select_criterion antialias threshold
                           initial_x initial_y =
     (let ev = (\<lambda>x. sample_difference col src_buffer src_format n_components has_alpha
                       select_transparent select_criterion antialias threshold x initial_y);
          diff = ev initial_x
      in if diff = 0 then Inr None
         else if \<not> (0 \<le> initial_x \<and> initial_x < width) then Inl Row_index_out_of_bounds
         else
           (let mask_row = [initial_x \<mapsto> diff];
                (start, mask_row) = find_segment_left ev (initial_x - 1) diff mask_row;
                (end, mask_row) = find_segment_right ev width (initial_x + 1) 1 mask_row
            in case gegl_buffer_set mask_buffer start initial_y (end - start)
                                    (\<lambda>i. mask_row (start + i)) of
                 Inl f \<Rightarrow> Inl f
               | Inr mask_buffer' \<Rightarrow> Inr (Some (mask_buffer', start, end))))"

subsection \<open>find_contiguous_region_helper\<close>

text \<open>
  The work list \<open>coord_stack\<close> stores the triples \<open>(y, start, end)\<close> interleaved;
  the model keeps each triple as one element. \<open>g_queue_pop_head\<close> of an empty queue
  yields \<open>NULL\<close>, which \<open>GPOINTER_TO_INT\<close> reads as 0.
\<close>

type_synonym coord_stack = "(int \<times> int \<times> int) list"

definition g_queue_pop_head :: "coord_stack \<Rightarrow> (int \<times> int \<times> int) \<times> coord_stack" where
  "g_queue_pop_head coord_stack =
     (case coord_stack of [] \<Rightarrow> ((0, 0, 0), []) | t # rest \<Rightarrow> (t, rest))"

text \<open>\<open>for (x = start + 1; x < end; x++)\<close>, from the current \<open>x\<close> on.\<close>

function find_region_for ::
  "color \<Rightarrow> GeglBuffer \<Rightarrow> Babl \<Rightarrow> bool \<Rightarrow> GimpSelectCriterion \<Rightarrow> bool \<Rightarrow> real
   \<Rightarrow> int \<Rightarrow> int \<Rightarrow> int \<Rightarrow> mask_buffer \<Rightarrow> coord_stack
   \<Rightarrow> fault + (mask_buffer \<times> coord_stack)" where
  "find_region_for col src_buffer format select_transparent select_criterion antialias threshold
                   y x end mask_buffer coord_stack =
     (if x < end then
        (if gegl_buffer_sample_mask mask_buffer x y \<noteq> 0
         then find_region_for col src_buffer format select_transparent select_criterion
                antialias threshold y (x + 1) end mask_buffer coord_stack
         else
           (case find_contiguous_segment col src_buffer mask_buffer format
                   (babl_format_get_n_components format) (babl_format_has_alpha format)
                   (gegl_buffer_get_width src_buffer)
                   select_transparent select_criterion antialias threshold x y of
              Inl f \<Rightarrow> Inl f
            | Inr None \<Rightarrow>
                find_region_for col src_buffer format select_transparent select_criterion
                  antialias threshold y (x + 1) end mask_buffer coord_stack
            | Inr (Some (mask_buffer', new_start, new_end)) \<Rightarrow>
                (let coord_stack1 =
                       (if y + 1 < gegl_buffer_get_height src_buffer
                        then coord_stack @ [(y + 1, new_start, new_end)] else coord_stack);
                     coord_stack2 =
                       (if y - 1 \<ge> 0
                        then coord_stack1 @ [(y - 1, new_start, new_end)] else coord_stack1)
                 in find_region_for col src_buffer format select_transparent select_criterion
                      antialias threshold y (x + 1) end mask_buffer' coord_stack2)))
      else Inr (mask_buffer, coord_stack))"
  by pat_completeness auto
termination
  by (relation "measure (\<lambda>(col, src_buffer, format, select_transparent, select_criterion,
                           antialias, threshold, y, x, end, mask_buffer, coord_stack).
                   nat (end - x))") auto

declare find_region_for.simps [simp del]

text \<open>
  The \<open>do ... while (! g_queue_is_empty (coord_stack))\<close> loop. The result \<open>None\<close>
  stands for a loop that never ends.
\<close>

partial_function (option) find_region_do_while ::
  "color \<Rightarrow> GeglBuffer \<Rightarrow> Babl \<Rightarrow> bool \<Rightarrow> GimpSelectCriterion \<Rightarrow> bool \<Rightarrow> real
   \<Rightarrow> mask_buffer \<Rightarrow> coord_stack \<Rightarrow> (fault + mask_buffer) option" where
  "find_region_do_while col src_buffer format select_transparent select_criterion antialias
                        threshold mask_buffer coord_stack =
     (case g_queue_pop_head coord_stack of
        ((y, start, end), coord_stack1) \<Rightarrow>
          (case find_region_for col src_buffer format select_transparent select_criterion
                  antialias threshold y (start + 1) end mask_buffer coord_stack1 of
             Inl f \<Rightarrow> Some (Inl f)
           | Inr (mask_buffer', coord_stack') \<Rightarrow>
               if coord_stack' \<noteq> []
               then find_region_do_while col src_buffer format select_transparent
                      select_criterion antialias threshold mask_buffer' coord_stack'
               else Some (Inr mask_buffer')))"

declare find_region_do_while.simps [code]

definition find_contiguous_region_helper ::
  "GeglBuffer \<Rightarrow> mask_buffer \<Rightarrow> Babl \<Rightarrow> bool \<Rightarrow> GimpSelectCriterion \<Rightarrow> bool \<Rightarrow> real
   \<Rightarrow> int \<Rightarrow> int \<Rightarrow> color \<Rightarrow> (fault + mask_buffer) option" where
  "find_contiguous_region_helper src_buffer mask_buffer format select_transparent
                                 select_criterion antialias threshold x y col =
     find_region_do_while col src_buffer format select_transparent select_criterion
       antialias threshold mask_buffer [(y, x - 1, x + 1)]"

subsection \<open>The public functions\<close>

text \<open>
  A pickable (a drawable, or the projection of an image) has a native format and a
  buffer. An argument that fails \<open>GIMP_IS_IMAGE\<close> or \<open>GIMP_IS_DRAWABLE\<close>, and a
  \<open>NULL\<close> colour, is \<open>None\<close>.
\<close>

record GimpPickable =
  gimp_pickable_get_format :: Babl
  gimp_pickable_get_buffer :: GeglBuffer

record GimpImage =
  gimp_image_get_projection :: GimpPickable

datatype GimpRGB = GimpRGB real real real real

text \<open>\<open>gimp_rgba_get_pixel (color, babl_format ("RGBA float"), col)\<close>.\<close>

fun gimp_rgba_get_pixel :: "GimpRGB \<Rightarrow> color" where
  "gimp_rgba_get_pixel (GimpRGB r g b a) = [r, g, b, a]"

definition gimp_image_contiguous_region_by_seed ::
  "GimpImage option \<Rightarrow> GimpPickable option \<Rightarrow> bool \<Rightarrow> bool \<Rightarrow> real \<Rightarrow> bool
   \<Rightarrow> GimpSelectCriterion \<Rightarrow> int \<Rightarrow> int \<Rightarrow> (fault + mask_buffer) option" where
  "gimp_image_contiguous_region_by_seed img drawable sample_merged antialias threshold
                                        select_transparent select_criterion x y =
     (case img of None \<Rightarrow> Some (Inl Returned_NULL) | Some image' \<Rightarrow>
     (case drawable of None \<Rightarrow> Some (Inl Returned_NULL) | Some drawable' \<Rightarrow>
        (let pickable = (if sample_merged then gimp_image_get_projection image' else drawable');
             native_format = gimp_pickable_get_format pickable;
             src_format =
               (if babl_format_is_palette native_format then RGBA_float
                else gimp_babl_format (gimp_babl_format_get_base_type native_format)
                                      (babl_format_has_alpha native_format));
             src_buffer = gimp_pickable_get_buffer pickable;
             mask_buffer = gimp_channel_new_mask (gegl_buffer_get_width src_buffer)
                                                 (gegl_buffer_get_height src_buffer);
             start_col = gegl_buffer_sample src_buffer x y src_format;
             select_transparent' =
               (if babl_format_has_alpha src_format
                then (if select_transparent
                      then (if start_col ! nat (babl_format_get_n_components src_format - 1) > 0
                            then False else select_transparent)
                      else select_transparent)
                else False)
         in find_contiguous_region_helper src_buffer mask_buffer src_format
              select_transparent' select_criterion antialias threshold x y start_col)))"

text \<open>
  The iterator of \<open>gimp_image_contiguous_region_by_color\<close> visits every pixel of the
  source in the format \<open>"RGBA float"\<close> and stores one value per pixel into the
  fresh mask.
\<close>

definition gimp_image_contiguous_region_by_color ::
  "GimpImage option \<Rightarrow> GimpPickable option \<Rightarrow> bool \<Rightarrow> bool \<Rightarrow> real \<Rightarrow> bool
   \<Rightarrow> GimpSelectCriterion \<Rightarrow> GimpRGB option \<Rightarrow> fault + mask_buffer" where
  "gimp_image_contiguous_region_by_color img drawable sample_merged antialias threshold
                                         select_transparent select_criterion color =
     (case img of None \<Rightarrow> Inl Returned_NULL | Some image' \<Rightarrow>
     (case drawable of None \<Rightarrow> Inl Returned_NULL | Some drawable' \<Rightarrow>
     (case color of None \<Rightarrow> Inl Returned_NULL | Some color' \<Rightarrow>
        (let col = gimp_rgba_get_pixel color';
             pickable = (if sample_merged then gimp_image_get_projection image' else drawable');
             has_alpha = babl_format_has_alpha (gimp_pickable_get_format pickable);
             src_buffer = gimp_pickable_get_buffer pickable;
             width = gegl_buffer_get_width src_buffer;
             height = gegl_buffer_get_height src_buffer;
             select_transparent' =
               (if has_alpha
                then (if select_transparent
                      then (if col ! 3 > 0 then False else select_transparent)
                      else select_transparent)
                else False);
             mask_buffer = gimp_channel_new_mask width height
         in Inr (mask_buffer
              \<lparr> mask_cells := (\<lambda>(x, y).
                   if 0 \<le> x \<and> x < width \<and> 0 \<le> y \<and> y < height
                   then pixel_difference col (gegl_buffer_pixel src_buffer RGBA_float x y)
                          antialias threshold (if has_alpha then 4 else 3) has_alpha
                          select_transparent' select_criterion
                   else mask_cells mask_buffer (x, y)),
                mask_writes := (\<lambda>(x, y).
                   if 0 \<le> x \<and> x < width \<and> 0 \<le> y \<and> y < height
                   then Suc (mask_writes mask_buffer (x, y))
                   else mask_writes mask_buffer (x, y)) \<rparr>)))))"

section \<open>Predicates for the statements about the region search\<close>

text \<open>
  The similarity of the pixel at \<open>(x, y)\<close> to the reference colour, as
  \<open>find_contiguous_region_helper\<close> has \<open>find_contiguous_segment\<close> compute it: the
  number of components and the alpha flag are those of the format.
\<close>

definition region_difference ::
  "color \<Rightarrow> GeglBuffer \<Rightarrow> Babl \<Rightarrow> bool \<Rightarrow> GimpSelectCriterion \<Rightarrow> bool \<Rightarrow> real
   \<Rightarrow> int \<Rightarrow> int \<Rightarrow> real" where
  "region_difference col src_buffer format select_transparent select_criterion antialias
                     threshold x y =
     sample_difference col src_buffer format (babl_format_get_n_components format)
       (babl_format_has_alpha format) select_transparent select_criterion antialias threshold x y"

text \<open>
  What \<open>gimp_image_contiguous_region_by_seed\<close> computes before it calls the helper:
  the buffer it samples, the comparison format, the colour at the seed, the transparency
  flag it passes on, and with them the similarity of every pixel to the seed.
\<close>

definition seed_buffer :: "GimpImage \<Rightarrow> GimpPickable \<Rightarrow> bool \<Rightarrow> GeglBuffer" where
  "seed_buffer image' drawable' sample_merged =
     gimp_pickable_get_buffer
       (if sample_merged then gimp_image_get_projection image' else drawable')"

definition seed_format :: "GimpImage \<Rightarrow> GimpPickable \<Rightarrow> bool \<Rightarrow> Babl" where
  "seed_format image' drawable' sample_merged =
     (let native_format = gimp_pickable_get_format
            (if sample_merged then gimp_image_get_projection image' else drawable')
      in if babl_format_is_palette native_format then RGBA_float
         else gimp_babl_format (gimp_babl_format_get_base_type native_format)
                               (babl_format_has_alpha native_format))"

definition seed_color :: "GimpImage \<Rightarrow> GimpPickable \<Rightarrow> bool \<Rightarrow> int \<Rightarrow> int \<Rightarrow> color" where
  "seed_color image' drawable' sample_merged x y =
     gegl_buffer_sample (seed_buffer image' drawable' sample_merged) x y
       (seed_format image' drawable' sample_merged)"

definition seed_select_transparent ::
  "GimpImage \<Rightarrow> GimpPickable \<Rightarrow> bool \<Rightarrow> bool \<Rightarrow> int \<Rightarrow> int \<Rightarrow> bool" where
  "seed_select_transparent image' drawable' sample_merged select_transparent x y \<longleftrightarrow>
     select_transparent
     \<and> babl_format_has_alpha (seed_format image' drawable' sample_merged)
     \<and> \<not> seed_color image' drawable' sample_merged x y
           ! nat (babl_format_get_n_components (seed_format image' drawable' sample_merged) - 1)
         > 0"

definition seed_similarity ::
  "GimpImage \<Rightarrow> GimpPickable \<Rightarrow> bool \<Rightarrow> bool \<Rightarrow> real \<Rightarrow> bool \<Rightarrow> GimpSelectCriterion
   \<Rightarrow> int \<Rightarrow> int \<Rightarrow> int \<Rightarrow> int \<Rightarrow> real" where
  "seed_similarity image' drawable' sample_merged antialias threshold select_transparent
                   select_criterion x y =
     region_difference (seed_color image' drawable' sample_merged x y)
       (seed_buffer image' drawable' sample_merged)
       (seed_format image' drawable' sample_merged)
       (seed_select_transparent image' drawable' sample_merged select_transparent x y)
       select_criterion antialias threshold"

text \<open>A coordinate inside the extent of the mask.\<close>

definition inside :: "mask_buffer \<Rightarrow> int \<Rightarrow> int \<Rightarrow> bool" where
  "inside m x y \<longleftrightarrow> 0 \<le> x \<and> x < mask_width m \<and> 0 \<le> y \<and> y < mask_height m"

text \<open>
  The effect of a successful \<open>find_contiguous_segment\<close> at \<open>(ix, iy)\<close>, where
  \<open>ev\<close> is the similarity along row \<open>iy\<close>: the bounds it returns and the mask after
  its bulk write.
\<close>

definition segment_post ::
  "(int \<Rightarrow> real) \<Rightarrow> mask_buffer \<Rightarrow> int \<Rightarrow> int \<Rightarrow> int \<Rightarrow> int \<Rightarrow> mask_buffer \<Rightarrow> bool" where
  "segment_post ev m iy ix s e m' \<longleftrightarrow>
     -1 \<le> s \<and> s < ix \<and> ix < e \<and> e \<le> mask_width m
     \<and> (\<forall>x. s < x \<and> x < e \<longrightarrow> ev x \<noteq> 0)
     \<and> (0 \<le> s \<longrightarrow> ev s = 0)
     \<and> (e < mask_width m \<longrightarrow> ev e = 0)
     \<and> m' = m \<lparr> mask_cells := (\<lambda>(cx, cy).
                    if cy = iy \<and> 0 \<le> iy \<and> iy < mask_height m \<and> s \<le> cx \<and> 0 \<le> cx \<and> cx < e
                    then ev cx else mask_cells m (cx, cy)),
                 mask_writes := (\<lambda>(cx, cy).
                    if cy = iy \<and> 0 \<le> iy \<and> iy < mask_height m \<and> s \<le> cx \<and> 0 \<le> cx \<and> cx < e
                    then Suc (mask_writes m (cx, cy)) else mask_writes m (cx, cy)) \<rparr>"

text \<open>
  The invariant of the mask, for a similarity \<open>E\<close>: every cell is 0 or holds its
  similarity; nothing outside the extent was touched; two horizontally adjacent matching
  pixels are both claimed or both unclaimed; and the write counter of a matching pixel is
  1 when it is claimed and 0 otherwise, while that of a non-matching pixel is at most 1,
  and is 1 only when the pixel to its right is claimed.
\<close>

definition mask_consistent :: "(int \<Rightarrow> int \<Rightarrow> real) \<Rightarrow> mask_buffer \<Rightarrow> bool" where
  "mask_consistent E m \<longleftrightarrow>
     (\<forall>x y. inside m x y \<longrightarrow> mask_cells m (x, y) = 0 \<or> mask_cells m (x, y) = E x y)"

definition outside_clear :: "mask_buffer \<Rightarrow> bool" where
  "outside_clear m \<longleftrightarrow>
     (\<forall>x y. \<not> inside m x y \<longrightarrow> mask_cells m (x, y) = 0 \<and> mask_writes m (x, y) = 0)"

definition runs_whole :: "(int \<Rightarrow> int \<Rightarrow> real) \<Rightarrow> mask_buffer \<Rightarrow> bool" where
  "runs_whole E m \<longleftrightarrow>
     (\<forall>x y. inside m x y \<and> inside m (x + 1) y \<and> E x y \<noteq> 0 \<and> E (x + 1) y \<noteq> 0 \<longrightarrow>
            (mask_cells m (x, y) \<noteq> 0 \<longleftrightarrow> mask_cells m (x + 1, y) \<noteq> 0))"

definition writes_once :: "(int \<Rightarrow> int \<Rightarrow> real) \<Rightarrow> mask_buffer \<Rightarrow> bool" where
  "writes_once E m \<longleftrightarrow>
     (\<forall>x y. inside m x y \<longrightarrow>
        (E x y \<noteq> 0 \<longrightarrow> mask_writes m (x, y) = (if mask_cells m (x, y) \<noteq> 0 then 1 else 0))
      \<and> (E x y = 0 \<longrightarrow> mask_writes m (x, y) \<le> 1
            \<and> (mask_writes m (x, y) = 1 \<longrightarrow>
                 inside m (x + 1) y \<and> mask_cells m (x + 1, y) \<noteq> 0)))"

definition mask_inv :: "(int \<Rightarrow> int \<Rightarrow> real) \<Rightarrow> mask_buffer \<Rightarrow> bool" where
  "mask_inv E m \<longleftrightarrow> mask_consistent E m \<and> outside_clear m \<and> runs_whole E m \<and> writes_once E m"

text \<open>The number of matching pixels not yet claimed: it bounds the work that is left.\<close>

definition unclaimed :: "(int \<Rightarrow> int \<Rightarrow> real) \<Rightarrow> mask_buffer \<Rightarrow> nat" where
  "unclaimed E m = card {(x, y). inside m x y \<and> E x y \<noteq> 0 \<and> mask_cells m (x, y) = 0}"

text \<open>
  A cell is pending when an interval of the work list covers it. Every interval of the
  work list lies in a row of the image and within the columns \<open>-1 .. width\<close>. The
  claimed region is closed when every matching pixel above or below a claimed pixel is
  claimed or pending, and the seed is covered when it is claimed or pending.
\<close>

definition pending :: "coord_stack \<Rightarrow> int \<Rightarrow> int \<Rightarrow> bool" where
  "pending q x y \<longleftrightarrow> (\<exists>(y', s, e) \<in> set q. y' = y \<and> s < x \<and> x < e)"

definition queue_ok :: "mask_buffer \<Rightarrow> coord_stack \<Rightarrow> bool" where
  "queue_ok m q \<longleftrightarrow>
     (\<forall>(y, s, e) \<in> set q. 0 \<le> y \<and> y < mask_height m \<and> -1 \<le> s \<and> e \<le> mask_width m)"

definition region_closed :: "(int \<Rightarrow> int \<Rightarrow> real) \<Rightarrow> mask_buffer \<Rightarrow> coord_stack \<Rightarrow> bool" where
  "region_closed E m q \<longleftrightarrow>
     (\<forall>x y y'. inside m x y \<and> mask_cells m (x, y) \<noteq> 0 \<and> (y' = y + 1 \<or> y' = y - 1)
               \<and> inside m x y' \<and> E x y' \<noteq> 0
          \<longrightarrow> mask_cells m (x, y') \<noteq> 0 \<or> pending q x y')"

definition seed_covered ::
  "(int \<Rightarrow> int \<Rightarrow> real) \<Rightarrow> mask_buffer \<Rightarrow> coord_stack \<Rightarrow> int \<Rightarrow> int \<Rightarrow> bool" where
  "seed_covered E m q x0 y0 \<longleftrightarrow>
     (E x0 y0 \<noteq> 0 \<longrightarrow> mask_cells m (x0, y0) \<noteq> 0 \<or> pending q x0 y0)"

definition loop_inv ::
  "(int \<Rightarrow> int \<Rightarrow> real) \<Rightarrow> int \<Rightarrow> int \<Rightarrow> mask_buffer \<Rightarrow> coord_stack \<Rightarrow> bool" where
  "loop_inv E x0 y0 m q \<longleftrightarrow>
     mask_inv E m \<and> queue_ok m q \<and> region_closed E m q \<and> seed_covered E m q x0 y0"

text \<open>The work list after the two conditional pushes of the loop body.\<close>

definition pushed :: "int \<Rightarrow> coord_stack \<Rightarrow> int \<Rightarrow> int \<Rightarrow> int \<Rightarrow> coord_stack" where
  "pushed H q y s e =
     (let coord_stack1 = (if y + 1 < H then q @ [(y + 1, s, e)] else q);
          coord_stack2 = (if y - 1 \<ge> 0 then coord_stack1 @ [(y - 1, s, e)] else coord_stack1)
      in coord_stack2)"

section \<open>Example inputs\<close>

text \<open>
  A row of three RGB pixels, white then black twice; a single fully transparent RGBA
  pixel; a row of an opaque and a fully transparent white RGBA pixel; and a grey RGB
  square of side 2.
\<close>

definition white_black_black :: GeglBuffer where
  "white_black_black =
     \<lparr> gegl_buffer_get_width = 3, gegl_buffer_get_height = 1,
       gegl_buffer_pixel = (\<lambda>format x y. if x = 0 then [1, 1, 1] else [0, 0, 0]) \<rparr>"

definition transparent_pixel :: GimpPickable where
  "transparent_pixel =
     \<lparr> gimp_pickable_get_format = Babl GIMP_RGB True,
       gimp_pickable_get_buffer =
         \<lparr> gegl_buffer_get_width = 1, gegl_buffer_get_height = 1,
           gegl_buffer_pixel = (\<lambda>format x y. [0, 0, 0, 0]) \<rparr> \<rparr>"

definition opaque_transparent :: GimpPickable where
  "opaque_transparent =
     \<lparr> gimp_pickable_get_format = Babl GIMP_RGB True,
       gimp_pickable_get_buffer =
         \<lparr> gegl_buffer_get_width = 2, gegl_buffer_get_height = 1,
           gegl_buffer_pixel = (\<lambda>format x y. if x = 0 then [1, 1, 1, 1] else [1, 1, 1, 0]) \<rparr> \<rparr>"

definition grey_square :: GimpPickable where
  "grey_square =
     \<lparr> gimp_pickable_get_format = Babl GIMP_RGB False,
       gimp_pickable_get_buffer =
         \<lparr> gegl_buffer_get_width = 2, gegl_buffer_get_height = 2,
           gegl_buffer_pixel = (\<lambda>format x y. [0.5, 0.5, 0.5]) \<rparr> \<rparr>"

definition image_of :: "GimpPickable \<Rightarrow> GimpImage" where
  "image_of pickable = \<lparr> gimp_image_get_projection = pickable \<rparr>"

section \<open>Properties of the similarity evaluator\<close>

lemma composite_difference_commute:
  "composite_difference a b n = composite_difference b a n"
proof -
  have "(\<lambda>(c::nat) (mx::real). let diff = \<bar>a ! c - b ! c\<bar> in if diff > mx then diff else mx)
      = (\<lambda>c mx. let diff = \<bar>b ! c - a ! c\<bar> in if diff > mx then diff else mx)"
    by (simp add: abs_minus_commute)
  then show ?thesis by (simp add: composite_difference_def)
qed

lemma max_difference_composite_commute:
  "max_difference a b n has_alpha select_transparent GIMP_SELECT_CRITERION_COMPOSITE
   = max_difference b a n has_alpha select_transparent GIMP_SELECT_CRITERION_COMPOSITE"
  by (simp add: max_difference_def abs_minus_commute composite_difference_commute [of a b])





text \<open>
  Claim C8, as stated, fails: the early return for a fully transparent sample looks at
  the alpha of the second colour only. With an alpha channel and transparency selection
  off, an opaque reference against a transparent sample gives 0, and the two colours
  swapped give 1.
\<close>

theorem pixel_difference_not_symmetric:
  "pixel_difference [1, 1, 1, 1] [1, 1, 1, 0] False 0 4 True False
     GIMP_SELECT_CRITERION_COMPOSITE
   \<noteq> pixel_difference [1, 1, 1, 0] [1, 1, 1, 1] False 0 4 True False
     GIMP_SELECT_CRITERION_COMPOSITE"
  by (simp add: pixel_difference_def max_difference_def threshold_value_def
                composite_difference_def upt_rec)

text \<open>
  Claim C8, amended. For the composite criterion \<open>pixel_difference\<close> is symmetric in
  its two colours whenever the source has no alpha channel, or transparency is being
  selected, or the alpha values of the two colours are both zero or both non-zero.
\<close>

theorem pixel_difference_composite_symmetric:
  assumes "\<not> has_alpha \<or> select_transparent
           \<or> (a ! nat (n_components - 1) = 0 \<longleftrightarrow> b ! nat (n_components - 1) = 0)"
  shows "pixel_difference a b antialias threshold n_components has_alpha select_transparent
           GIMP_SELECT_CRITERION_COMPOSITE
       = pixel_difference b a antialias threshold n_components has_alpha select_transparent
           GIMP_SELECT_CRITERION_COMPOSITE"
  using assms max_difference_composite_commute [of a b n_components has_alpha select_transparent]
  by (auto simp: pixel_difference_def)

theorem pixel_difference_composite_symmetric_witness:
  "pixel_difference [1, 0, 1, 1] [0, 1, 1, 0.5] True 2 4 True False
     GIMP_SELECT_CRITERION_COMPOSITE
   = pixel_difference [0, 1, 1, 0.5] [1, 0, 1, 1] True 2 4 True False
     GIMP_SELECT_CRITERION_COMPOSITE"
  using pixel_difference_composite_symmetric
          [where has_alpha = True and select_transparent = False and a = "[1, 0, 1, 1]"
             and b = "[0, 1, 1, 0.5]" and n_components = 4 and antialias = True
             and threshold = 2]
  by simp

section \<open>The segment finder and the work-list loop\<close>

lemma find_segment_left_spec:
  assumes "find_segment_left ev start diff row = (s, row')" and "diff \<noteq> 0" and "-1 \<le> start"
  shows "-1 \<le> s \<and> s \<le> start
       \<and> (\<forall>x. s < x \<and> x \<le> start \<longrightarrow> ev x \<noteq> 0)
       \<and> (0 \<le> s \<longrightarrow> ev s = 0)
       \<and> (\<forall>x. row' x = (if s \<le> x \<and> 0 \<le> x \<and> x \<le> start then Some (ev x) else row x))"
  using assms
proof (induction ev start diff row rule: find_segment_left.induct)
  case (1 ev start diff row)
  show ?case
  proof (cases "0 \<le> start")
    case False
    with "1.prems" show ?thesis
      by (auto simp: find_segment_left.simps [of ev start])
  next
    case True
    show ?thesis
    proof (cases "ev start = 0")
      case z: True
      have "find_segment_left ev start diff row = (start, row(start \<mapsto> ev start))"
        using True z "1.prems"(2)
        by (simp add: find_segment_left.simps [of ev start diff]
                      find_segment_left.simps [of ev start 0] Let_def)
      with "1.prems" z True show ?thesis by auto
    next
      case nz: False
      have eq: "find_segment_left ev start diff row
              = find_segment_left ev (start - 1) (ev start) (row(start \<mapsto> ev start))"
        using True nz "1.prems"(2)
        by (simp add: find_segment_left.simps [of ev start diff] Let_def)
      have ih: "-1 \<le> s \<and> s \<le> start - 1
       \<and> (\<forall>x. s < x \<and> x \<le> start - 1 \<longrightarrow> ev x \<noteq> 0)
       \<and> (0 \<le> s \<longrightarrow> ev s = 0)
       \<and> (\<forall>x. row' x = (if s \<le> x \<and> 0 \<le> x \<and> x \<le> start - 1 then Some (ev x)
                          else (row(start \<mapsto> ev start)) x))"
      proof -
        have c: "0 \<le> start \<and> diff \<noteq> 0" using True "1.prems"(2) by simp
        have sel: "(if ev start \<noteq> 0 then start - 1 else start) = start - 1" using nz by simp
        have e': "find_segment_left ev (start - 1) (ev start) (row(start \<mapsto> ev start)) = (s, row')"
          using eq "1.prems"(1) by simp
        have le: "-1 \<le> start - 1" using True by simp
        show ?thesis by (rule "1.IH" [OF c refl refl, unfolded sel, OF e' nz le])
      qed
      have "\<And>x. s < x \<and> x \<le> start \<Longrightarrow> ev x \<noteq> 0"
      proof -
        fix x assume "s < x \<and> x \<le> start"
        then have "x \<le> start - 1 \<or> x = start" by arith
        with ih nz \<open>s < x \<and> x \<le> start\<close> show "ev x \<noteq> 0" by blast
      qed
      moreover have "\<And>x. row' x = (if s \<le> x \<and> 0 \<le> x \<and> x \<le> start then Some (ev x) else row x)"
        using ih True by auto
      ultimately show ?thesis using ih by auto
    qed
  qed
qed

lemma find_segment_right_spec:
  assumes "find_segment_right ev width end diff row = (e, row')" and "diff \<noteq> 0"
    and "end \<le> width"
  shows "end \<le> e \<and> e \<le> width
       \<and> (\<forall>x. end \<le> x \<and> x < e \<longrightarrow> ev x \<noteq> 0)
       \<and> (e < width \<longrightarrow> ev e = 0)
       \<and> (\<forall>x. row' x = (if end \<le> x \<and> x \<le> e \<and> x < width then Some (ev x) else row x))"
  using assms
proof (induction ev width "end" diff row rule: find_segment_right.induct)
  case (1 ev width en diff row)
  show ?case
  proof (cases "en < width")
    case False
    with "1.prems" show ?thesis
      by (auto simp: find_segment_right.simps [of ev width en])
  next
    case True
    show ?thesis
    proof (cases "ev en = 0")
      case z: True
      have "find_segment_right ev width en diff row = (en, row(en \<mapsto> ev en))"
        using True z "1.prems"(2)
        by (simp add: find_segment_right.simps [of ev width en diff]
                      find_segment_right.simps [of ev width en 0] Let_def)
      with "1.prems" z True show ?thesis by auto
    next
      case nz: False
      have eq: "find_segment_right ev width en diff row
              = find_segment_right ev width (en + 1) (ev en) (row(en \<mapsto> ev en))"
        using True nz "1.prems"(2)
        by (simp add: find_segment_right.simps [of ev width en diff] Let_def)
      have ih: "en + 1 \<le> e \<and> e \<le> width
       \<and> (\<forall>x. en + 1 \<le> x \<and> x < e \<longrightarrow> ev x \<noteq> 0)
       \<and> (e < width \<longrightarrow> ev e = 0)
       \<and> (\<forall>x. row' x = (if en + 1 \<le> x \<and> x \<le> e \<and> x < width then Some (ev x)
                          else (row(en \<mapsto> ev en)) x))"
      proof -
        have c: "en < width \<and> diff \<noteq> 0" using True "1.prems"(2) by simp
        have sel: "(if ev en \<noteq> 0 then en + 1 else en) = en + 1" using nz by simp
        have e': "find_segment_right ev width (en + 1) (ev en) (row(en \<mapsto> ev en)) = (e, row')"
          using eq "1.prems"(1) by simp
        have le: "en + 1 \<le> width" using True by simp
        show ?thesis by (rule "1.IH" [OF c refl refl, unfolded sel, OF e' nz le])
      qed
      have "\<And>x. en \<le> x \<and> x < e \<Longrightarrow> ev x \<noteq> 0"
      proof -
        fix x assume "en \<le> x \<and> x < e"
        then have "en + 1 \<le> x \<or> x = en" by arith
        with ih nz \<open>en \<le> x \<and> x < e\<close> show "ev x \<noteq> 0" by blast
      qed
      moreover have "\<And>x. row' x = (if en \<le> x \<and> x \<le> e \<and> x < width then Some (ev x) else row x)"
        using ih True by auto
      ultimately show ?thesis using ih by auto
    qed
  qed
qed

lemma gegl_buffer_set_row:
  assumes "\<forall>c. s \<le> c \<and> 0 \<le> c \<and> c < e \<longrightarrow> row c = Some (ev c)" and "e \<le> mask_width m"
  shows "gegl_buffer_set m s iy (e - s) (\<lambda>i. row (s + i))
       = Inr (m \<lparr> mask_cells := (\<lambda>(cx, cy).
                    if cy = iy \<and> 0 \<le> iy \<and> iy < mask_height m \<and> s \<le> cx \<and> 0 \<le> cx \<and> cx < e
                    then ev cx else mask_cells m (cx, cy)),
                 mask_writes := (\<lambda>(cx, cy).
                    if cy = iy \<and> 0 \<le> iy \<and> iy < mask_height m \<and> s \<le> cx \<and> 0 \<le> cx \<and> cx < e
                    then Suc (mask_writes m (cx, cy)) else mask_writes m (cx, cy)) \<rparr>)"
proof -
  have cols: "\<And>c. c \<in> set (rect_columns m s iy (e - s))
                \<longleftrightarrow> 0 \<le> iy \<and> iy < mask_height m \<and> s \<le> c \<and> 0 \<le> c \<and> c < e"
    using assms(2) by (auto simp: rect_columns_def)
  have ok: "\<not> (\<exists>c \<in> set (rect_columns m s iy (e - s)). row (s + (c - s)) = None)"
    using assms(1) by (auto simp: cols)
  have cells: "(\<lambda>(cx, cy). if cy = iy \<and> cx \<in> set (rect_columns m s iy (e - s))
                            then the (row (s + (cx - s))) else mask_cells m (cx, cy))
             = (\<lambda>(cx, cy). if cy = iy \<and> 0 \<le> iy \<and> iy < mask_height m \<and> s \<le> cx \<and> 0 \<le> cx \<and> cx < e
                    then ev cx else mask_cells m (cx, cy))"
    using assms(1) by (auto simp: cols fun_eq_iff)
  have writes: "(\<lambda>(cx, cy). if cy = iy \<and> cx \<in> set (rect_columns m s iy (e - s))
                            then Suc (mask_writes m (cx, cy)) else mask_writes m (cx, cy))
             = (\<lambda>(cx, cy). if cy = iy \<and> 0 \<le> iy \<and> iy < mask_height m \<and> s \<le> cx \<and> 0 \<le> cx \<and> cx < e
                    then Suc (mask_writes m (cx, cy)) else mask_writes m (cx, cy))"
    by (auto simp: cols fun_eq_iff)
  show ?thesis
    unfolding gegl_buffer_set_def Let_def using ok
    by (simp only: if_False cells writes)
qed

lemma find_contiguous_segment_None:
  assumes "sample_difference col src fmt n ha st crit aa T ix iy = 0"
  shows "find_contiguous_segment col src m fmt n ha width st crit aa T ix iy = Inr None"
  using assms by (simp add: find_contiguous_segment_def Let_def)

lemma find_contiguous_segment_Some:
  assumes nz: "sample_difference col src fmt n ha st crit aa T ix iy \<noteq> 0"
    and ix: "0 \<le> ix" "ix < width" and w: "mask_width m = width"
  shows "\<exists>s e m'. find_contiguous_segment col src m fmt n ha width st crit aa T ix iy
                    = Inr (Some (m', s, e))
                \<and> segment_post (\<lambda>x. sample_difference col src fmt n ha st crit aa T x iy)
                     m iy ix s e m'"
proof -
  define ev where "ev = (\<lambda>x. sample_difference col src fmt n ha st crit aa T x iy)"
  define row0 where "row0 = [ix \<mapsto> ev ix]"
  obtain s row1 where L: "find_segment_left ev (ix - 1) (ev ix) row0 = (s, row1)"
    by (cases "find_segment_left ev (ix - 1) (ev ix) row0") auto
  obtain e row2 where R: "find_segment_right ev width (ix + 1) 1 row1 = (e, row2)"
    by (cases "find_segment_right ev width (ix + 1) 1 row1") auto
  have nz': "ev ix \<noteq> 0" using nz by (simp add: ev_def)
  have ls: "-1 \<le> s \<and> s \<le> ix - 1
       \<and> (\<forall>x. s < x \<and> x \<le> ix - 1 \<longrightarrow> ev x \<noteq> 0)
       \<and> (0 \<le> s \<longrightarrow> ev s = 0)
       \<and> (\<forall>x. row1 x = (if s \<le> x \<and> 0 \<le> x \<and> x \<le> ix - 1 then Some (ev x) else row0 x))"
    using find_segment_left_spec [OF L nz'] ix by simp
  have rs: "ix + 1 \<le> e \<and> e \<le> width
       \<and> (\<forall>x. ix + 1 \<le> x \<and> x < e \<longrightarrow> ev x \<noteq> 0)
       \<and> (e < width \<longrightarrow> ev e = 0)
       \<and> (\<forall>x. row2 x = (if ix + 1 \<le> x \<and> x \<le> e \<and> x < width then Some (ev x) else row1 x))"
    using find_segment_right_spec [OF R] ix by simp
  have run: "\<forall>x. s < x \<and> x < e \<longrightarrow> ev x \<noteq> 0"
  proof (intro allI impI)
    fix x assume "s < x \<and> x < e"
    then have "x \<le> ix - 1 \<or> x = ix \<or> ix + 1 \<le> x" by arith
    with ls rs nz' \<open>s < x \<and> x < e\<close> show "ev x \<noteq> 0" by blast
  qed
  have row: "\<forall>c. s \<le> c \<and> 0 \<le> c \<and> c < e \<longrightarrow> row2 c = Some (ev c)"
  proof (intro allI impI)
    fix c assume c: "s \<le> c \<and> 0 \<le> c \<and> c < e"
    then consider "c \<le> ix - 1" | "c = ix" | "ix + 1 \<le> c" by arith
    then show "row2 c = Some (ev c)"
    proof cases
      case 1
      then have "row2 c = row1 c" using rs by simp
      then show ?thesis using ls c 1 by simp
    next
      case 2
      then have "row2 c = row1 c" using rs by simp
      also have "\<dots> = row0 c" using ls 2 by simp
      finally show ?thesis using 2 by (simp add: row0_def)
    next
      case 3
      then show ?thesis using rs c by simp
    qed
  qed
  have ew: "e \<le> mask_width m" using rs w by simp
  note set = gegl_buffer_set_row [OF row ew, of iy]
  have "find_contiguous_segment col src m fmt n ha width st crit aa T ix iy
        = (case gegl_buffer_set m s iy (e - s) (\<lambda>i. row2 (s + i)) of
             Inl f \<Rightarrow> Inl f | Inr m' \<Rightarrow> Inr (Some (m', s, e)))"
    using nz' ix L R
    by (simp add: find_contiguous_segment_def Let_def ev_def [symmetric] row0_def [symmetric])
  then show ?thesis
    unfolding set segment_post_def ev_def [symmetric]
    using ls rs run ew w by simp
qed

lemma segment_post_cells:
  "segment_post ev m iy ix s e m' \<Longrightarrow>
   mask_cells m' (cx, cy)
   = (if cy = iy \<and> 0 \<le> iy \<and> iy < mask_height m \<and> s \<le> cx \<and> 0 \<le> cx \<and> cx < e
      then ev cx else mask_cells m (cx, cy))"
  by (simp add: segment_post_def)

lemma segment_post_writes:
  "segment_post ev m iy ix s e m' \<Longrightarrow>
   mask_writes m' (cx, cy)
   = (if cy = iy \<and> 0 \<le> iy \<and> iy < mask_height m \<and> s \<le> cx \<and> 0 \<le> cx \<and> cx < e
      then Suc (mask_writes m (cx, cy)) else mask_writes m (cx, cy))"
  by (simp add: segment_post_def)

lemma segment_post_dims:
  "segment_post ev m iy ix s e m' \<Longrightarrow>
   mask_width m' = mask_width m \<and> mask_height m' = mask_height m"
  by (simp add: segment_post_def)

lemma segment_post_inside:
  "segment_post ev m iy ix s e m' \<Longrightarrow> inside m' x y = inside m x y"
  by (simp add: segment_post_def inside_def)

lemma segment_post_bounds:
  "segment_post ev m iy ix s e m' \<Longrightarrow>
   -1 \<le> s \<and> s < ix \<and> ix < e \<and> e \<le> mask_width m
   \<and> (\<forall>x. s < x \<and> x < e \<longrightarrow> ev x \<noteq> 0)
   \<and> (0 \<le> s \<longrightarrow> ev s = 0) \<and> (e < mask_width m \<longrightarrow> ev e = 0)"
  by (simp add: segment_post_def)

lemma run_unclaimed:
  assumes rw: "runs_whole E m" and run: "\<forall>x. s < x \<and> x < e \<longrightarrow> E x iy \<noteq> 0"
    and b: "-1 \<le> s" "e \<le> mask_width m" "0 \<le> iy" "iy < mask_height m"
    and ix: "s < ix" "ix < e" and z: "mask_cells m (ix, iy) = 0"
  shows "s < x \<and> x < e \<longrightarrow> mask_cells m (x, iy) = 0"
proof (cases "ix \<le> x")
  case True
  then show ?thesis
  proof (induct x rule: int_ge_induct)
    case base
    then show ?case using z by simp
  next
    case (step i)
    show ?case
    proof
      assume a: "s < i + 1 \<and> i + 1 < e"
      with step ix have i: "s < i \<and> i < e" by arith
      with step have zi: "mask_cells m (i, iy) = 0" by blast
      have "inside m i iy" "inside m (i + 1) iy" using i a b by (auto simp: inside_def)
      moreover have "E i iy \<noteq> 0" "E (i + 1) iy \<noteq> 0" using run i a by blast+
      ultimately have "mask_cells m (i, iy) \<noteq> 0 \<longleftrightarrow> mask_cells m (i + 1, iy) \<noteq> 0"
        using rw unfolding runs_whole_def by blast
      with zi show "mask_cells m (i + 1, iy) = 0" by simp
    qed
  qed
next
  case False
  then have "x \<le> ix" by simp
  then show ?thesis
  proof (induct x rule: int_le_induct)
    case base
    then show ?case using z by simp
  next
    case (step i)
    show ?case
    proof
      assume a: "s < i - 1 \<and> i - 1 < e"
      with step ix have i: "s < i \<and> i < e" by arith
      with step have zi: "mask_cells m (i, iy) = 0" by blast
      have "inside m (i - 1) iy" "inside m (i - 1 + 1) iy" using i a b by (auto simp: inside_def)
      moreover have "E (i - 1) iy \<noteq> 0" "E (i - 1 + 1) iy \<noteq> 0" using run i a by auto
      ultimately have "mask_cells m (i - 1, iy) \<noteq> 0 \<longleftrightarrow> mask_cells m (i - 1 + 1, iy) \<noteq> 0"
        using rw unfolding runs_whole_def by blast
      with zi show "mask_cells m (i - 1, iy) = 0" by simp
    qed
  qed
qed

lemma segment_consistent:
  assumes "mask_consistent E m" and post: "segment_post (\<lambda>x. E x iy) m iy ix s e m'"
  shows "mask_consistent E m'"
  unfolding mask_consistent_def
proof (intro allI impI)
  fix x y assume "inside m' x y"
  then have "inside m x y" using segment_post_inside [OF post] by simp
  then have "mask_cells m (x, y) = 0 \<or> mask_cells m (x, y) = E x y"
    using assms(1) by (simp add: mask_consistent_def)
  then show "mask_cells m' (x, y) = 0 \<or> mask_cells m' (x, y) = E x y"
    by (auto simp: segment_post_cells [OF post])
qed

lemma segment_keeps_nonzero:
  assumes "mask_consistent E m" and post: "segment_post (\<lambda>x. E x iy) m iy ix s e m'"
    and "mask_cells m (x, y) \<noteq> 0" and "inside m x y"
  shows "mask_cells m' (x, y) = mask_cells m (x, y)"
proof -
  have "mask_cells m (x, y) = E x y"
    using assms(1,3,4) by (auto simp: mask_consistent_def)
  then show ?thesis by (auto simp: segment_post_cells [OF post])
qed

lemma segment_outside_clear:
  assumes "outside_clear m" and post: "segment_post (\<lambda>x. E x iy) m iy ix s e m'"
  shows "outside_clear m'"
  unfolding outside_clear_def
proof (intro allI impI)
  fix x y assume "\<not> inside m' x y"
  then have n: "\<not> inside m x y" using segment_post_inside [OF post] by simp
  then have "mask_cells m (x, y) = 0 \<and> mask_writes m (x, y) = 0"
    using assms(1) by (simp add: outside_clear_def)
  moreover have "\<not> (y = iy \<and> 0 \<le> iy \<and> iy < mask_height m \<and> s \<le> x \<and> 0 \<le> x \<and> x < e)"
    using n segment_post_bounds [OF post] by (auto simp: inside_def)
  ultimately show "mask_cells m' (x, y) = 0 \<and> mask_writes m' (x, y) = 0"
    unfolding segment_post_cells [OF post] segment_post_writes [OF post] by (simp only: if_False)
qed

lemma segment_runs_whole:
  assumes rw: "runs_whole E m" and post: "segment_post (\<lambda>x. E x iy) m iy ix s e m'"
    and ins: "inside m ix iy" and z: "mask_cells m (ix, iy) = 0"
  shows "runs_whole E m'"
  unfolding runs_whole_def
proof (intro allI impI)
  fix x y
  assume a: "inside m' x y \<and> inside m' (x + 1) y \<and> E x y \<noteq> 0 \<and> E (x + 1) y \<noteq> 0"
  note bd = segment_post_bounds [OF post]
  have in1: "inside m x y" and in2: "inside m (x + 1) y"
    using a segment_post_inside [OF post] by simp_all
  have old: "mask_cells m (x, y) \<noteq> 0 \<longleftrightarrow> mask_cells m (x + 1, y) \<noteq> 0"
    using rw in1 in2 a unfolding runs_whole_def by blast
  show "mask_cells m' (x, y) \<noteq> 0 \<longleftrightarrow> mask_cells m' (x + 1, y) \<noteq> 0"
  proof (cases "y = iy")
    case False
    then show ?thesis using old by (simp add: segment_post_cells [OF post])
  next
    case True
    have xs: "x \<noteq> s" using bd a in1 True by (auto simp: inside_def)
    have xe: "x + 1 \<noteq> e" using bd a in2 True by (auto simp: inside_def)
    have iy: "0 \<le> iy \<and> iy < mask_height m" using ins by (simp add: inside_def)
    have xs1: "x + 1 \<noteq> s" using bd a in2 True by (auto simp: inside_def)
    consider "s < x \<and> x + 1 < e" | "x + 1 < s" | "e \<le> x" using xs xs1 xe by arith
    then show ?thesis
    proof cases
      case 1
      then have "E x iy \<noteq> 0" "E (x + 1) iy \<noteq> 0" using bd by auto
      then show ?thesis using 1 True iy in1
        by (simp add: segment_post_cells [OF post] inside_def)
    next
      case 2
      then show ?thesis using old True bd xs
        by (simp add: segment_post_cells [OF post])
    next
      case 3
      then show ?thesis using old True
        by (simp add: segment_post_cells [OF post])
    qed
  qed
qed

lemma segment_writes_once:
  assumes con: "mask_consistent E m" and rw: "runs_whole E m" and wo: "writes_once E m"
    and post: "segment_post (\<lambda>x. E x iy) m iy ix s e m'"
    and ins: "inside m ix iy" and z: "mask_cells m (ix, iy) = 0"
  shows "writes_once E m'"
  unfolding writes_once_def
proof (intro allI impI)
  fix x y assume "inside m' x y"
  then have in1: "inside m x y" using segment_post_inside [OF post] by simp
  note bd = segment_post_bounds [OF post]
  have iy: "0 \<le> iy \<and> iy < mask_height m" using ins by (simp add: inside_def)
  have run0: "\<And>c. s < c \<and> c < e \<longrightarrow> mask_cells m (c, iy) = 0"
    using run_unclaimed [OF rw, of s e iy ix] bd iy z by blast
  have oldw: "(E x y \<noteq> 0 \<longrightarrow> mask_writes m (x, y) = (if mask_cells m (x, y) \<noteq> 0 then 1 else 0))
      \<and> (E x y = 0 \<longrightarrow> mask_writes m (x, y) \<le> 1
            \<and> (mask_writes m (x, y) = 1 \<longrightarrow>
                 inside m (x + 1) y \<and> mask_cells m (x + 1, y) \<noteq> 0))"
    using wo in1 unfolding writes_once_def by blast
  define hit where "hit \<longleftrightarrow> y = iy \<and> s \<le> x \<and> 0 \<le> x \<and> x < e"
  have cells': "mask_cells m' (x, y) = (if hit then E x iy else mask_cells m (x, y))"
    using iy by (simp add: segment_post_cells [OF post] hit_def)
  have writes': "mask_writes m' (x, y)
               = (if hit then Suc (mask_writes m (x, y)) else mask_writes m (x, y))"
    using iy by (simp add: segment_post_writes [OF post] hit_def)
  show "(E x y \<noteq> 0 \<longrightarrow> mask_writes m' (x, y) = (if mask_cells m' (x, y) \<noteq> 0 then 1 else 0))
      \<and> (E x y = 0 \<longrightarrow> mask_writes m' (x, y) \<le> 1
            \<and> (mask_writes m' (x, y) = 1 \<longrightarrow>
                 inside m' (x + 1) y \<and> mask_cells m' (x + 1, y) \<noteq> 0))"
  proof (cases hit)
    case False
    have keep: "mask_writes m (x, y) = 1 \<Longrightarrow> E x y = 0
                \<Longrightarrow> inside m' (x + 1) y \<and> mask_cells m' (x + 1, y) \<noteq> 0"
    proof -
      assume "mask_writes m (x, y) = 1" "E x y = 0"
      with oldw have n: "inside m (x + 1) y" "mask_cells m (x + 1, y) \<noteq> 0" by blast+
      have "mask_cells m' (x + 1, y) = mask_cells m (x + 1, y)"
        by (rule segment_keeps_nonzero [OF con post n(2) n(1)])
      with n show ?thesis using segment_post_inside [OF post] by simp
    qed
    show ?thesis using False oldw keep by (simp add: cells' writes')
  next
    case True
    show ?thesis
    proof (cases "E x y = 0")
      case nz: False
      then have "x \<noteq> s" using bd True by (auto simp: hit_def)
      then have r: "s < x \<and> x < e" using True by (simp add: hit_def)
      then have "mask_cells m (x, y) = 0" using run0 True by (simp add: hit_def)
      then have "mask_writes m (x, y) = 0" using oldw nz by simp
      moreover have "E x iy \<noteq> 0" using nz True by (simp add: hit_def)
      ultimately show ?thesis using nz by (simp add: cells' writes' True)
    next
      case ez: True
      have "\<not> (s < x \<and> x < e)" using bd ez True by (auto simp: hit_def)
      then have xs: "x = s" using True by (auto simp: hit_def)
      have s1: "s < s + 1 \<and> s + 1 < e" using bd by arith
      then have c1: "mask_cells m (s + 1, iy) = 0" using run0 by blast
      have "mask_writes m (x, y) \<noteq> 1" using oldw ez c1 xs True by (auto simp: hit_def)
      then have w0: "mask_writes m (x, y) = 0" using oldw ez by simp
      have "inside m (s + 1) iy" using bd iy by (auto simp: inside_def)
      then have n1: "inside m' (s + 1) iy" using segment_post_inside [OF post] by simp
      have "mask_cells m' (s + 1, iy) = E (s + 1) iy"
        using s1 iy bd True xs by (simp add: segment_post_cells [OF post] hit_def)
      moreover have "E (s + 1) iy \<noteq> 0" using bd s1 by blast
      ultimately have "inside m' (x + 1) y \<and> mask_cells m' (x + 1, y) \<noteq> 0"
        using n1 xs True by (simp add: hit_def)
      then show ?thesis using ez w0 by (simp add: writes' True)
    qed
  qed
qed

lemma segment_mask_inv:
  assumes "mask_inv E m" and "segment_post (\<lambda>x. E x iy) m iy ix s e m'"
    and "inside m ix iy" and "mask_cells m (ix, iy) = 0"
  shows "mask_inv E m'"
proof -
  note post = assms(2)
  have c: "mask_consistent E m" and oc: "outside_clear m" and rw: "runs_whole E m"
    and wo: "writes_once E m"
    using assms(1) by (simp_all add: mask_inv_def)
  show ?thesis
    unfolding mask_inv_def
    using segment_consistent [where E = E and iy = iy, OF c post]
      segment_outside_clear [where E = E and iy = iy, OF oc post]
      segment_runs_whole [where E = E and iy = iy, OF rw post assms(3,4)]
      segment_writes_once [where E = E and iy = iy, OF c rw wo post assms(3,4)]
    by simp
qed

lemma finite_inside: "finite {(x, y). inside m x y}"
proof -
  have "{(x, y). inside m x y} \<subseteq> {0 ..< mask_width m} \<times> {0 ..< mask_height m}"
    by (auto simp: inside_def)
  then show ?thesis by (rule finite_subset) simp
qed

lemma unclaimed_decreases:
  assumes post: "segment_post (\<lambda>x. E x iy) m iy ix s e m'"
    and ins: "inside m ix iy" and z: "mask_cells m (ix, iy) = 0"
  shows "unclaimed E m' < unclaimed E m"
proof -
  let ?A = "{(x, y). inside m' x y \<and> E x y \<noteq> 0 \<and> mask_cells m' (x, y) = 0}"
  let ?B = "{(x, y). inside m x y \<and> E x y \<noteq> 0 \<and> mask_cells m (x, y) = 0}"
  note bd = segment_post_bounds [OF post]
  have nz: "E ix iy \<noteq> 0" using bd by simp
  have sub: "?A \<subseteq> ?B"
    by (auto simp: segment_post_inside [OF post] segment_post_cells [OF post]
             split: if_splits)
  have "(ix, iy) \<in> ?B" using ins z nz by simp
  moreover have "(ix, iy) \<notin> ?A"
    using bd ins nz by (simp add: segment_post_cells [OF post] inside_def)
  ultimately have "?A \<subset> ?B" using sub by blast
  moreover have "finite ?B"
    by (rule finite_subset [OF _ finite_inside [of m]]) auto
  ultimately show ?thesis unfolding unclaimed_def by (rule psubset_card_mono [rotated])
qed

lemma pending_Cons:
  "pending ((y', s, e) # q) x y \<longleftrightarrow> (y' = y \<and> s < x \<and> x < e) \<or> pending q x y"
  by (auto simp: pending_def)

lemma pending_append: "pending (q @ r) x y \<longleftrightarrow> pending q x y \<or> pending r x y"
  by (auto simp: pending_def)

lemma pending_Nil: "\<not> pending [] x y"
  by (simp add: pending_def)

lemma pending_pushed:
  "pending (pushed H q y s e) cx cy \<longleftrightarrow>
     pending q cx cy \<or> (s < cx \<and> cx < e \<and> ((cy = y + 1 \<and> y + 1 < H) \<or> (cy = y - 1 \<and> y - 1 \<ge> 0)))"
  by (auto simp: pushed_def Let_def pending_append pending_Cons pending_Nil)

lemma queue_ok_pushed:
  assumes "queue_ok m q" and "0 \<le> y" and "y < mask_height m" and "H = mask_height m"
    and "-1 \<le> s" and "e \<le> mask_width m"
  shows "queue_ok m (pushed H q y s e)"
  using assms by (auto simp: queue_ok_def pushed_def Let_def)

lemma loop_inv_advance:
  assumes inv: "loop_inv E x0 y0 m ((y, x - 1, e) # q)"
    and skip: "mask_cells m (x, y) \<noteq> 0 \<or> E x y = 0"
  shows "loop_inv E x0 y0 m ((y, x, e) # q)"
proof -
  have mi: "mask_inv E m" and qo: "queue_ok m ((y, x - 1, e) # q)"
    and rc: "region_closed E m ((y, x - 1, e) # q)"
    and sc: "seed_covered E m ((y, x - 1, e) # q) x0 y0"
    using inv by (simp_all add: loop_inv_def)
  have p: "\<And>cx cy. pending ((y, x - 1, e) # q) cx cy \<Longrightarrow>
             (cx = x \<and> cy = y) \<or> pending ((y, x, e) # q) cx cy"
    by (auto simp: pending_Cons)
  have "queue_ok m ((y, x, e) # q)" using qo by (auto simp: queue_ok_def)
  moreover have "region_closed E m ((y, x, e) # q)"
    unfolding region_closed_def
  proof (intro allI impI)
    fix cx cy cy'
    assume a: "inside m cx cy \<and> mask_cells m (cx, cy) \<noteq> 0 \<and> (cy' = cy + 1 \<or> cy' = cy - 1)
               \<and> inside m cx cy' \<and> E cx cy' \<noteq> 0"
    then have "mask_cells m (cx, cy') \<noteq> 0 \<or> pending ((y, x - 1, e) # q) cx cy'"
      using rc unfolding region_closed_def by blast
    then show "mask_cells m (cx, cy') \<noteq> 0 \<or> pending ((y, x, e) # q) cx cy'"
      using p [of cx cy'] skip a by auto
  qed
  moreover have "seed_covered E m ((y, x, e) # q) x0 y0"
    using sc p [of x0 y0] skip unfolding seed_covered_def by auto
  ultimately show ?thesis using mi by (simp add: loop_inv_def)
qed

lemma loop_inv_done:
  assumes inv: "loop_inv E x0 y0 m ((y, x - 1, e) # q)" and "\<not> x < e"
  shows "loop_inv E x0 y0 m q"
proof -
  have p: "\<And>cx cy. pending ((y, x - 1, e) # q) cx cy = pending q cx cy"
    using assms(2) by (auto simp: pending_Cons)
  show ?thesis
    using inv unfolding loop_inv_def region_closed_def seed_covered_def p
    by (auto simp: queue_ok_def)
qed

lemma loop_inv_match:
  assumes inv: "loop_inv E x0 y0 m ((y, x - 1, e) # q)" and xe: "x < e"
    and z: "mask_cells m (x, y) = 0"
    and post: "segment_post (\<lambda>c. E c y) m y x s' e' m'"
    and H: "H = mask_height m"
  shows "loop_inv E x0 y0 m' ((y, x, e) # pushed H q y s' e')"
proof -
  have mi: "mask_inv E m" and qo: "queue_ok m ((y, x - 1, e) # q)"
    and rc: "region_closed E m ((y, x - 1, e) # q)"
    and sc: "seed_covered E m ((y, x - 1, e) # q) x0 y0"
    using inv by (simp_all add: loop_inv_def)
  have con: "mask_consistent E m" and oc: "outside_clear m"
    using mi by (simp_all add: mask_inv_def)
  note bd = segment_post_bounds [OF post]
  note dims = segment_post_dims [OF post]
  have yb: "0 \<le> y \<and> y < mask_height m" and xb: "0 \<le> x \<and> e \<le> mask_width m"
    using qo by (auto simp: queue_ok_def)
  have ins: "inside m x y" using yb xb xe by (simp add: inside_def)
  have mi': "mask_inv E m'"
    by (rule segment_mask_inv [where E = E and iy = y, OF mi post ins z])
  have keep: "\<And>cx cy. mask_cells m (cx, cy) \<noteq> 0 \<Longrightarrow> mask_cells m' (cx, cy) \<noteq> 0"
  proof -
    fix cx cy assume n: "mask_cells m (cx, cy) \<noteq> 0"
    then have "inside m cx cy" using oc unfolding outside_clear_def by blast
    then show "mask_cells m' (cx, cy) \<noteq> 0"
      using segment_keeps_nonzero [where E = E and iy = y, OF con post n] n by simp
  qed
  have new: "mask_cells m' (x, y) \<noteq> 0"
    using bd yb xb by (simp add: segment_post_cells [OF post])
  have fresh: "\<And>cx cy. mask_cells m (cx, cy) = 0 \<Longrightarrow> mask_cells m' (cx, cy) \<noteq> 0
                 \<Longrightarrow> cy = y \<and> s' < cx \<and> cx < e'"
  proof -
    fix cx cy assume a: "mask_cells m (cx, cy) = 0" "mask_cells m' (cx, cy) \<noteq> 0"
    then have h: "cy = y \<and> s' \<le> cx \<and> 0 \<le> cx \<and> cx < e'" and v: "E cx y \<noteq> 0"
      by (auto simp: segment_post_cells [OF post] split: if_splits)
    then have "cx \<noteq> s'" using bd by auto
    with h show "cy = y \<and> s' < cx \<and> cx < e'" by simp
  qed
  have p: "\<And>cx cy. pending ((y, x - 1, e) # q) cx cy \<Longrightarrow>
             (cx = x \<and> cy = y) \<or> pending ((y, x, e) # pushed H q y s' e') cx cy"
    by (auto simp: pending_Cons pending_pushed)
  have "queue_ok m' ((y, x, e) # pushed H q y s' e')"
  proof -
    have "queue_ok m q" using qo by (simp add: queue_ok_def)
    then have "queue_ok m (pushed H q y s' e')"
      using queue_ok_pushed [of m q y H s' e'] yb H bd by simp
    then show ?thesis using yb xb dims by (simp add: queue_ok_def)
  qed
  moreover have "region_closed E m' ((y, x, e) # pushed H q y s' e')"
    unfolding region_closed_def
  proof (intro allI impI)
    fix cx cy cy'
    assume a: "inside m' cx cy \<and> mask_cells m' (cx, cy) \<noteq> 0 \<and> (cy' = cy + 1 \<or> cy' = cy - 1)
               \<and> inside m' cx cy' \<and> E cx cy' \<noteq> 0"
    then have i1: "inside m cx cy" and i2: "inside m cx cy'"
      using segment_post_inside [OF post] by simp_all
    show "mask_cells m' (cx, cy') \<noteq> 0 \<or> pending ((y, x, e) # pushed H q y s' e') cx cy'"
    proof (cases "mask_cells m (cx, cy) = 0")
      case False
      then have "mask_cells m (cx, cy') \<noteq> 0 \<or> pending ((y, x - 1, e) # q) cx cy'"
        using rc a i1 i2 unfolding region_closed_def by blast
      then show ?thesis using keep [of cx cy'] p [of cx cy'] new by auto
    next
      case True
      then have r: "cy = y \<and> s' < cx \<and> cx < e'" using fresh a by blast
      have "(cy' = y + 1 \<and> y + 1 < H) \<or> (cy' = y - 1 \<and> y - 1 \<ge> 0)"
        using a r i2 H by (auto simp: inside_def)
      then have "pending (pushed H q y s' e') cx cy'" using r by (simp add: pending_pushed)
      then show ?thesis by (simp add: pending_Cons)
    qed
  qed
  moreover have "seed_covered E m' ((y, x, e) # pushed H q y s' e') x0 y0"
    using sc p [of x0 y0] keep [of x0 y0] new unfolding seed_covered_def by auto
  ultimately show ?thesis using mi' by (simp add: loop_inv_def)
qed

lemma sample_mask_inside:
  "inside m x y \<Longrightarrow> gegl_buffer_sample_mask m x y = mask_cells m (x, y)"
  by (simp add: gegl_buffer_sample_mask_def inside_def)

lemma find_region_for_total:
  assumes E: "E = region_difference col src fmt st crit aa T"
    and inv: "loop_inv E x0 y0 m ((y, x - 1, e) # q)"
    and dims: "mask_width m = gegl_buffer_get_width src"
              "mask_height m = gegl_buffer_get_height src"
  shows "\<exists>m' q'. find_region_for col src fmt st crit aa T y x e m q = Inr (m', q')
           \<and> loop_inv E x0 y0 m' q'
           \<and> mask_width m' = mask_width m \<and> mask_height m' = mask_height m
           \<and> (unclaimed E m' < unclaimed E m \<or> (m' = m \<and> q' = q))"
  using inv dims
proof (induct "nat (e - x)" arbitrary: x m q rule: less_induct)
  case less
  note inv = less.prems(1) and dims = less.prems(2,3)
  show ?case
  proof (cases "x < e")
    case False
    then have "find_region_for col src fmt st crit aa T y x e m q = Inr (m, q)"
      by (simp add: find_region_for.simps [of col src fmt st crit aa T y x e m q])
    then show ?thesis using loop_inv_done [OF inv False] by simp
  next
    case True
    have qo: "queue_ok m ((y, x - 1, e) # q)" using inv by (simp add: loop_inv_def)
    have yb: "0 \<le> y \<and> y < mask_height m" and xb: "0 \<le> x \<and> e \<le> mask_width m"
      using qo by (auto simp: queue_ok_def)
    have ins: "inside m x y" using yb xb True by (simp add: inside_def)
    have smaller: "nat (e - (x + 1)) < nat (e - x)" using True by simp
    show ?thesis
    proof (cases "mask_cells m (x, y) \<noteq> 0 \<or> E x y = 0")
      case skip: True
      have step: "find_region_for col src fmt st crit aa T y x e m q
                = find_region_for col src fmt st crit aa T y (x + 1) e m q"
      proof (cases "mask_cells m (x, y) \<noteq> 0")
        case True
        then show ?thesis using \<open>x < e\<close> ins
          by (simp add: find_region_for.simps [of col src fmt st crit aa T y x e m q]
                        sample_mask_inside)
      next
        case False
        then have "E x y = 0" using skip by simp
        then have "find_contiguous_segment col src m fmt (babl_format_get_n_components fmt)
                     (babl_format_has_alpha fmt) (gegl_buffer_get_width src) st crit aa T x y
                   = Inr None"
          using find_contiguous_segment_None [of col src fmt _ _ st crit aa T x y]
          by (simp add: E region_difference_def)
        then show ?thesis using \<open>x < e\<close> ins False
          by (simp add: find_region_for.simps [of col src fmt st crit aa T y x e m q]
                        sample_mask_inside)
      qed
      have inv': "loop_inv E x0 y0 m ((y, (x + 1) - 1, e) # q)"
        using loop_inv_advance [OF inv skip] by simp
      show ?thesis using less.hyps [OF smaller inv' dims] step by simp
    next
      case match: False
      then have z: "mask_cells m (x, y) = 0" and nz: "E x y \<noteq> 0" by simp_all
      have "\<exists>s' e' m'. find_contiguous_segment col src m fmt (babl_format_get_n_components fmt)
                     (babl_format_has_alpha fmt) (gegl_buffer_get_width src) st crit aa T x y
                   = Inr (Some (m', s', e'))
                \<and> segment_post (\<lambda>c. sample_difference col src fmt
                       (babl_format_get_n_components fmt) (babl_format_has_alpha fmt)
                       st crit aa T c y) m y x s' e' m'"
        using nz xb True dims
        by (intro find_contiguous_segment_Some) (simp_all add: E region_difference_def)
      then obtain s' e' m' where
        seg: "find_contiguous_segment col src m fmt (babl_format_get_n_components fmt)
                     (babl_format_has_alpha fmt) (gegl_buffer_get_width src) st crit aa T x y
                   = Inr (Some (m', s', e'))"
        and post0: "segment_post (\<lambda>c. sample_difference col src fmt
                       (babl_format_get_n_components fmt) (babl_format_has_alpha fmt)
                       st crit aa T c y) m y x s' e' m'"
        by blast
      have post: "segment_post (\<lambda>c. E c y) m y x s' e' m'"
        using post0 by (simp add: E region_difference_def [abs_def])
      define q2 where "q2 = pushed (gegl_buffer_get_height src) q y s' e'"
      have step: "find_region_for col src fmt st crit aa T y x e m q
                = find_region_for col src fmt st crit aa T y (x + 1) e m' q2"
        using \<open>x < e\<close> ins z seg
        by (simp add: find_region_for.simps [of col src fmt st crit aa T y x e m q]
                      sample_mask_inside q2_def pushed_def Let_def)
      have inv': "loop_inv E x0 y0 m' ((y, (x + 1) - 1, e) # q2)"
        using loop_inv_match [OF inv True z post, of "gegl_buffer_get_height src"] dims
        by (simp add: q2_def)
      have dims': "mask_width m' = gegl_buffer_get_width src"
                  "mask_height m' = gegl_buffer_get_height src"
        using segment_post_dims [OF post] dims by simp_all
      have dec: "unclaimed E m' < unclaimed E m"
        by (rule unclaimed_decreases [where E = E and iy = y, OF post ins z])
      obtain m'' q'' where
        r: "find_region_for col src fmt st crit aa T y (x + 1) e m' q2 = Inr (m'', q'')"
        and i: "loop_inv E x0 y0 m'' q''"
        and d: "mask_width m'' = mask_width m' \<and> mask_height m'' = mask_height m'"
        and u: "unclaimed E m'' < unclaimed E m' \<or> (m'' = m' \<and> q'' = q2)"
        using less.hyps [OF smaller inv' dims'] by blast
      have "unclaimed E m'' < unclaimed E m" using u dec by auto
      then show ?thesis using step r i d dims dims' by simp
    qed
  qed
qed

lemma find_region_do_while_total:
  assumes E: "E = region_difference col src fmt st crit aa T"
    and inv: "loop_inv E x0 y0 m q"
    and dims: "mask_width m = gegl_buffer_get_width src"
              "mask_height m = gegl_buffer_get_height src"
    and ne: "q \<noteq> []"
  shows "\<exists>m'. find_region_do_while col src fmt st crit aa T m q = Some (Inr m')
           \<and> loop_inv E x0 y0 m' []
           \<and> mask_width m' = mask_width m \<and> mask_height m' = mask_height m"
  using inv dims ne
proof (induct "(unclaimed E m, length q)" arbitrary: m q
         rule: wf_induct_rule [OF wf_lex_prod [OF wf_less_than wf_less_than]])
  case (1 m q)
  note inv = "1.prems"(1) and dims = "1.prems"(2,3) and ne = "1.prems"(4)
  obtain y s e q1 where q: "q = (y, s, e) # q1" using ne by (cases q) auto
  have inv1: "loop_inv E x0 y0 m ((y, (s + 1) - 1, e) # q1)" using inv q by simp
  obtain m' q' where
    r: "find_region_for col src fmt st crit aa T y (s + 1) e m q1 = Inr (m', q')"
    and i: "loop_inv E x0 y0 m' q'"
    and d: "mask_width m' = mask_width m \<and> mask_height m' = mask_height m"
    and u: "unclaimed E m' < unclaimed E m \<or> (m' = m \<and> q' = q1)"
    using find_region_for_total [OF E inv1 dims] by blast
  have unf: "find_region_do_while col src fmt st crit aa T m q
           = (if q' \<noteq> [] then find_region_do_while col src fmt st crit aa T m' q'
              else Some (Inr m'))"
    by (subst find_region_do_while.simps) (simp add: q g_queue_pop_head_def r)
  show ?case
  proof (cases "q' = []")
    case True
    then show ?thesis using unf i d by simp
  next
    case False
    have "((unclaimed E m', length q'), (unclaimed E m, length q))
            \<in> less_than <*lex*> less_than"
      using u q by auto
    moreover have "mask_width m' = gegl_buffer_get_width src"
                  "mask_height m' = gegl_buffer_get_height src"
      using d dims by simp_all
    ultimately have "\<exists>m''. find_region_do_while col src fmt st crit aa T m' q' = Some (Inr m'')
           \<and> loop_inv E x0 y0 m'' []
           \<and> mask_width m'' = mask_width m' \<and> mask_height m'' = mask_height m'"
      using "1.hyps" [of m' q'] i False by blast
    then show ?thesis using unf False d by auto
  qed
qed

lemma by_seed_unfold:
  "gimp_image_contiguous_region_by_seed (Some image') (Some drawable') sample_merged antialias
     threshold select_transparent select_criterion x y
   = find_contiguous_region_helper (seed_buffer image' drawable' sample_merged)
       (gimp_channel_new_mask
          (gegl_buffer_get_width (seed_buffer image' drawable' sample_merged))
          (gegl_buffer_get_height (seed_buffer image' drawable' sample_merged)))
       (seed_format image' drawable' sample_merged)
       (seed_select_transparent image' drawable' sample_merged select_transparent x y)
       select_criterion antialias threshold x y
       (seed_color image' drawable' sample_merged x y)"
proof -
  have st: "seed_select_transparent image' drawable' sample_merged select_transparent x y
     = (if babl_format_has_alpha (seed_format image' drawable' sample_merged)
        then (if select_transparent
              then (if seed_color image' drawable' sample_merged x y
                        ! nat (babl_format_get_n_components
                                 (seed_format image' drawable' sample_merged) - 1) > 0
                    then False else select_transparent)
              else select_transparent)
        else False)"
    by (simp add: seed_select_transparent_def)
  show ?thesis
    unfolding st
    by (simp add: gimp_image_contiguous_region_by_seed_def Let_def seed_buffer_def
                  seed_format_def seed_color_def)
qed

lemma new_mask_loop_inv:
  assumes "0 \<le> x" "x < W" "0 \<le> y" "y < H"
  shows "loop_inv E x y (gimp_channel_new_mask W H) [(y, x - 1, x + 1)]"
  using assms
  by (auto simp: loop_inv_def mask_inv_def mask_consistent_def outside_clear_def
        runs_whole_def writes_once_def queue_ok_def region_closed_def seed_covered_def
        pending_def gimp_channel_new_mask_def)

lemma helper_total:
  assumes E: "E = region_difference col src fmt st crit aa T"
    and seed: "0 \<le> x" "x < gegl_buffer_get_width src" "0 \<le> y" "y < gegl_buffer_get_height src"
  shows "\<exists>m'. find_contiguous_region_helper src
                 (gimp_channel_new_mask (gegl_buffer_get_width src) (gegl_buffer_get_height src))
                 fmt st crit aa T x y col = Some (Inr m')
           \<and> loop_inv E x y m' []
           \<and> mask_width m' = gegl_buffer_get_width src
           \<and> mask_height m' = gegl_buffer_get_height src"
proof -
  let ?m0 = "gimp_channel_new_mask (gegl_buffer_get_width src) (gegl_buffer_get_height src)"
  have d: "mask_width ?m0 = gegl_buffer_get_width src"
          "mask_height ?m0 = gegl_buffer_get_height src"
    by (simp_all add: gimp_channel_new_mask_def)
  have inv: "loop_inv E x y ?m0 [(y, x - 1, x + 1)]"
    by (rule new_mask_loop_inv [OF seed])
  show ?thesis
    using find_region_do_while_total [OF E inv d] d
    by (simp add: find_contiguous_region_helper_def)
qed

lemma by_seed_total:
  assumes seed: "0 \<le> x" "x < gegl_buffer_get_width (seed_buffer image' drawable' sample_merged)"
                "0 \<le> y" "y < gegl_buffer_get_height (seed_buffer image' drawable' sample_merged)"
  shows "\<exists>m'. gimp_image_contiguous_region_by_seed (Some image') (Some drawable') sample_merged
                 antialias threshold select_transparent select_criterion x y = Some (Inr m')
           \<and> loop_inv (seed_similarity image' drawable' sample_merged antialias threshold
                          select_transparent select_criterion x y) x y m' []
           \<and> mask_width m' = gegl_buffer_get_width (seed_buffer image' drawable' sample_merged)
           \<and> mask_height m' = gegl_buffer_get_height (seed_buffer image' drawable' sample_merged)"
  unfolding by_seed_unfold
  by (rule helper_total [OF _ seed]) (simp add: seed_similarity_def)

end
